theory Spec2Isabelle
  imports Complex_Main "HOL-Library.Word"
begin

unbundle bit_operations_syntax

section \<open>Python values and exceptions\<close>

text \<open>
  The exceptions the modelled code can raise. The source never raises by hand: an
  out-of-range subscript raises \<open>IndexError\<close>, a missing dictionary key \<open>KeyError\<close>, a
  negative shift count, an unparsable number or a byte value outside \<open>range(256)\<close>
  \<open>ValueError\<close>, a subscript of \<open>None\<close> \<open>TypeError\<close>. A function that can raise returns
  \<open>error + 'a\<close>, with \<open>Inl\<close> for the exception. The specification calls the first
  \<open>OutOfRange\<close> and the second, in the decoder, \<open>UnknownMode\<close>.
\<close>

datatype error = IndexError | KeyError | ValueError | TypeError

type_synonym byte = "8 word"

text \<open>
  Subscripting a Python sequence with an integer: a negative index counts from the end,
  anything outside \<open>[-n, n)\<close> raises \<open>IndexError\<close>.
\<close>

definition py_getitem :: "'a list \<Rightarrow> int \<Rightarrow> error + 'a" where
  "py_getitem xs i =
     (let n = int (length xs) in
      if 0 \<le> i \<and> i < n then Inr (xs ! nat i)
      else if - n \<le> i \<and> i < 0 then Inr (xs ! nat (n + i))
      else Inl IndexError)"

section \<open>bits.py\<close>

subsection \<open>split\_bits\<close>

text \<open>
  The inner \<open>while (pos < next_pos)\<close> loop of \<open>split_bits\<close>, as a function of the
  variables it assigns: \<open>pos\<close>, \<open>rem_len\<close>, \<open>b_index\<close> and \<open>bits\<close>; it returns their
  final values. Integers are Python's unbounded ones; \<open>x >> n\<close> is \<open>drop_bit\<close>,
  \<open>x << n\<close> is \<open>push_bit\<close>, and a negative count of \<open><<\<close> raises \<open>ValueError\<close>. The
  count \<open>max_pos - to_pos\<close> of the second \<open>>>\<close> is never negative, since \<open>to_pos\<close> is a
  minimum with \<open>max_pos\<close>, and \<open>pos % 8\<close> is never negative either. The loop need not end
  from every state, so the result is an option: \<open>None\<close> stands for a loop that runs
  forever.
\<close>

partial_function (option) split_bits_inner ::
  "byte list \<Rightarrow> int \<Rightarrow> int \<Rightarrow> int \<Rightarrow> int \<Rightarrow> int \<Rightarrow> (error + int \<times> int \<times> int \<times> int) option"
where
  "split_bits_inner bs next_pos pos rem_len b_index bits =
     (if pos < next_pos then
        (case py_getitem bs b_index of
           Inl e \<Rightarrow> Some (Inl e)
         | Inr w \<Rightarrow>
             let b = uint w;
                 max_pos = push_bit 3 (b_index + 1);
                 to_pos = min (pos + rem_len) max_pos;
                 length = to_pos - pos;
                 b = b AND drop_bit (nat (pos mod 8)) 255;
                 b = drop_bit (nat (max_pos - to_pos)) b
             in if length < 0 then Some (Inl ValueError)
                else
                  let bits = push_bit (nat length) bits + b;
                      rem_len = rem_len - length;
                      pos = pos + length;
                      b_index = (if pos \<ge> max_pos then b_index + 1 else b_index)
                  in split_bits_inner bs next_pos pos rem_len b_index bits)
      else Some (Inr (pos, rem_len, b_index, bits)))"

declare split_bits_inner.simps [code]

text \<open>
  \<open>next_pos\<close> as the source computes it, before the loop for \<open>s_index = 0\<close> and at the
  end of every round: \<open>ss[s_index + 1]\<close> is read only when it exists.
\<close>

definition next_pos_of :: "int list \<Rightarrow> int \<Rightarrow> nat \<Rightarrow> int" where
  "next_pos_of ss end_pos s_index =
     (if s_index + 1 < length ss then min end_pos (ss ! (s_index + 1)) else end_pos)"

text \<open>
  The outer \<open>while (pos < end_pos)\<close> loop, as a function of \<open>pos\<close>, \<open>next_pos\<close>,
  \<open>b_index\<close>, \<open>s_index\<close> and \<open>bits_list\<close>. Every round starts the inner loop with
  \<open>rem_len = next_pos - pos\<close> and \<open>bits = 0\<close> (the source clears \<open>bits\<close> after each push).
\<close>

partial_function (option) split_bits_outer ::
  "byte list \<Rightarrow> int list \<Rightarrow> int \<Rightarrow> int \<Rightarrow> int \<Rightarrow> int \<Rightarrow> nat \<Rightarrow> int list \<Rightarrow> (error + int list) option"
where
  "split_bits_outer bs ss end_pos pos next_pos b_index s_index bits_list =
     (if pos < end_pos then
        Option.bind (split_bits_inner bs next_pos pos (next_pos - pos) b_index 0)
          (\<lambda>r. case r of
             Inl e \<Rightarrow> Some (Inl e)
           | Inr (pos, rem_len, b_index, bits) \<Rightarrow>
               let bits_list = bits_list @ [bits];
                   s_index = s_index + 1;
                   next_pos = next_pos_of ss end_pos s_index
               in split_bits_outer bs ss end_pos pos next_pos b_index s_index bits_list)
      else Some (Inr bits_list))"

declare split_bits_outer.simps [code]

text \<open>
  \<open>split_bits(bs, ss, end)\<close>: \<open>ss[0]\<close> raises \<open>IndexError\<close> on an empty list; a negative
  \<open>end\<close> (the default is \<open>-1\<close>) stands for the end of the buffer.
\<close>

definition end_pos_of :: "byte list \<Rightarrow> int \<Rightarrow> int" where
  "end_pos_of bs end = (if end < 0 then push_bit 3 (int (length bs)) else end)"

definition split_bits :: "byte list \<Rightarrow> int list \<Rightarrow> int \<Rightarrow> (error + int list) option" where
  "split_bits bs ss end =
     (case py_getitem ss 0 of
        Inl e \<Rightarrow> Some (Inl e)
      | Inr pos \<Rightarrow>
          let end_pos = end_pos_of bs end;
              next_pos = next_pos_of ss end_pos 0;
              b_index = drop_bit 3 pos
          in split_bits_outer bs ss end_pos pos next_pos b_index 0 [])"

subsection \<open>extract\_bits\<close>

text \<open>
  \<open>extract_bits(bs, s, l)\<close> returns \<open>bits_list[0]\<close>, or Python's \<open>None\<close> when the list
  is empty: the result \<open>Inr None\<close>.
\<close>

definition extract_bits :: "byte list \<Rightarrow> int \<Rightarrow> int \<Rightarrow> (error + int option) option" where
  "extract_bits bs s l =
     (case split_bits bs [s] (s + l) of
        None \<Rightarrow> None
      | Some (Inl e) \<Rightarrow> Some (Inl e)
      | Some (Inr bits_list) \<Rightarrow>
          Some (Inr (if length bits_list > 0 then Some (bits_list ! 0) else None)))"

subsection \<open>hexstr\_to\_bytes\<close>

text \<open>
  Python's \<open>int(x, 16)\<close> on an ASCII string, as \<open>PyLong_FromString\<close> reads it: leading
  white space, one optional sign, an optional \<open>0x\<close> or \<open>0X\<close> prefix (one underscore may
  follow it), then hexadecimal digits with single underscores between them, then
  trailing white space; anything else raises \<open>ValueError\<close>.
\<close>

definition py_isspace :: "char \<Rightarrow> bool" where
  "py_isspace c = (let n = (of_char c :: nat) in (9 \<le> n \<and> n \<le> 13) \<or> n = 32)"

definition digit_value :: "char \<Rightarrow> int option" where
  "digit_value c =
     (let n = (of_char c :: nat) in
      if 48 \<le> n \<and> n \<le> 57 then Some (int n - 48)
      else if 97 \<le> n \<and> n \<le> 102 then Some (int n - 87)
      else if 65 \<le> n \<and> n \<le> 70 then Some (int n - 55)
      else None)"

definition digit_or_underscore :: "char \<Rightarrow> bool" where
  "digit_or_underscore c = (digit_value c \<noteq> None \<or> c = CHR ''_'')"

fun underscores_ok :: "char \<Rightarrow> string \<Rightarrow> bool" where
  "underscores_ok prev [] = (prev \<noteq> CHR ''_'')"
| "underscores_ok prev (c # cs) = (\<not> (c = CHR ''_'' \<and> prev = CHR ''_'') \<and> underscores_ok c cs)"

definition digits_value :: "string \<Rightarrow> int" where
  "digits_value cs =
     foldl (\<lambda>a c. case digit_value c of Some d \<Rightarrow> 16 * a + d | None \<Rightarrow> a) 0 cs"

definition py_int16 :: "string \<Rightarrow> error + int" where
  "py_int16 x =
     (let s = dropWhile py_isspace x;
          (sign, s) = (case s of
                         [] \<Rightarrow> (1, s)
                       | c # r \<Rightarrow> if c = CHR ''+'' then (1, r)
                                  else if c = CHR ''-'' then (- 1, r) else (1, s));
          s = (case s of
                 a # b # r \<Rightarrow>
                   if a = CHR ''0'' \<and> (b = CHR ''x'' \<or> b = CHR ''X'')
                   then (case r of [] \<Rightarrow> r | c # r' \<Rightarrow> if c = CHR ''_'' then r' else r)
                   else s
               | _ \<Rightarrow> s);
          body = takeWhile digit_or_underscore s;
          rest = dropWhile py_isspace (dropWhile digit_or_underscore s)
      in case body of
           [] \<Rightarrow> Inl ValueError
         | c # _ \<Rightarrow>
             if c = CHR ''_'' \<or> \<not> underscores_ok (CHR 0x00) body \<or> rest \<noteq> []
             then Inl ValueError
             else Inr (sign * digits_value body))"




section \<open>canaly.py\<close>

subsection \<open>The signal definition table\<close>

text \<open>
  One entry of a record's \<open>values\<close> list in the JSON file, with the keys the code reads
  (the prefix \<open>v_\<close> keeps the names apart from HOL's). The same dictionaries are the field
  definitions \<open>analyze_data\<close> works on. \<open>resolution\<close> and \<open>minimum\<close> are JSON numbers;
  Python's floating-point numbers are modelled as reals: their rounding is not modelled,
  and neither is the \<open>OverflowError\<close> of \<open>float(bits)\<close> for an integer beyond the range
  of a double, which takes a chunk of more than 1023 bits.
\<close>

record value_def =
  v_name :: string
  v_start :: int
  v_length :: int
  v_type :: string
  v_resolution :: real
  v_minimum :: real
  v_unit :: string
  v_desc :: string
  v_mode_signal :: int
  v_mode_dependent :: string

text \<open>One record of the JSON list.\<close>

record raw_record =
  r_id :: string
  r_name :: string
  r_values :: "value_def list"

text \<open>
  A Python dictionary with integer keys, as an association list in insertion order
  with no key twice: \<open>map_of\<close> looks a key up.
\<close>

type_synonym 'v int_dict = "(int \<times> 'v) list"

text \<open>
  An entry of the table \<open>stbl\<close>. The source builds one of two dictionaries, told apart
  by their \<open>multi_mode\<close> flag: \<open>{id, name, values}\<close> or
  \<open>{id, name, mode, mode_dependent_values}\<close>. \<open>mode\<close> is initialised to \<open>None\<close>.
\<close>

datatype schema =
    Simple int string "value_def list"
  | Variant int string "value_def option" "value_def list int_dict"

text \<open>
  \<open>if key not in mode_dependent_values: mode_dependent_values[key] = []\<close> followed by
  \<open>mode_dependent_values[key].append(v)\<close>.
\<close>

definition mdv_append :: "int \<Rightarrow> value_def \<Rightarrow> value_def list int_dict \<Rightarrow> value_def list int_dict" where
  "mdv_append k v m =
     (case map_of m k of
        None \<Rightarrow> m @ [(k, [v])]
      | Some _ \<Rightarrow> map (\<lambda>(k', vs). if k' = k then (k', vs @ [v]) else (k', vs)) m)"

text \<open>
  The loop \<open>for v in r["values"]\<close> of \<open>load_stbl\<close>, with state
  \<open>(multi_mode, mode, mode_dependent_values)\<close>.
\<close>

fun scan_values ::
  "value_def list \<Rightarrow> bool \<times> value_def option \<times> value_def list int_dict \<Rightarrow>
   error + bool \<times> value_def option \<times> value_def list int_dict"
where
  "scan_values [] st = Inr st"
| "scan_values (v # vs) (multi_mode, mode, mode_dependent_values) =
     (let (multi_mode, mode) =
            (if v_mode_signal v = 1 then (True, Some v) else (multi_mode, mode))
      in if v_mode_dependent v \<noteq> []
         then (case py_int16 (v_mode_dependent v) of
                 Inl e \<Rightarrow> Inl e
               | Inr mode_dependent_signal \<Rightarrow>
                   scan_values vs
                     (multi_mode, mode, mdv_append mode_dependent_signal v mode_dependent_values))
         else scan_values vs (multi_mode, mode, mode_dependent_values))"

text \<open>
  The entry \<open>load_stbl\<close> stores for a record \<open>r\<close> under \<open>canid\<close>: the scan of its values,
  then one of the two dictionaries.
\<close>

definition schema_of :: "int \<Rightarrow> raw_record \<Rightarrow> error + schema" where
  "schema_of canid r =
     (case scan_values (r_values r) (False, None, []) of
        Inl e \<Rightarrow> Inl e
      | Inr (multi_mode, mode, mode_dependent_values) \<Rightarrow>
          Inr (if multi_mode then Variant canid (r_name r) mode mode_dependent_values
               else Simple canid (r_name r) (r_values r)))"

text \<open>
  The loop \<open>for r in json_list\<close>, with the table as state. \<open>int(r["id"], 16)\<close> is
  evaluated before the table is asked for the identifier; a record whose identifier is
  in the table already is passed over by \<open>continue\<close>.
\<close>

fun load_records :: "raw_record list \<Rightarrow> schema int_dict \<Rightarrow> error + schema int_dict" where
  "load_records [] stbl = Inr stbl"
| "load_records (r # rs) stbl =
     (case py_int16 (r_id r) of
        Inl e \<Rightarrow> Inl e
      | Inr canid \<Rightarrow>
          if map_of stbl canid \<noteq> None then load_records rs stbl
          else
            (case schema_of canid r of
               Inl e \<Rightarrow> Inl e
             | Inr entry \<Rightarrow> load_records rs (stbl @ [(canid, entry)])))"

text \<open>
  \<open>load_stbl\<close>, from the list \<open>json.load\<close> returns: opening and parsing the file are
  outside the model.
\<close>

definition load_stbl :: "raw_record list \<Rightarrow> error + schema int_dict" where
  "load_stbl json_list = load_records json_list []"

subsection \<open>analyze\_data\<close>

text \<open>
  A value of a decoded field: an integer, or a floating-point number (a real here).
\<close>

datatype pyval = IntV int | FloatV real

text \<open>
  The dictionary \<open>analyze_data\<close> appends per field. The one it builds for the mode has
  no \<open>unit\<close> key: \<open>f_unit\<close> is \<open>None\<close> there.
\<close>

record decoded_field =
  f_name :: string
  f_bits :: int
  f_value :: pyval
  f_unit :: "string option"
  f_desc :: string

definition mode_field :: "value_def \<Rightarrow> int \<Rightarrow> decoded_field" where
  "mode_field mode_def mode =
     \<lparr>f_name = v_name mode_def, f_bits = mode, f_value = IntV mode, f_unit = None,
      f_desc = v_desc mode_def\<rparr>"

definition value_field :: "value_def \<Rightarrow> int \<Rightarrow> decoded_field" where
  "value_field d bits =
     (let value = (if v_type d = ''float''
                   then FloatV (real_of_int bits * v_resolution d + v_minimum d)
                   else IntV bits)
      in \<lparr>f_name = v_name d, f_bits = bits, f_value = value, f_unit = Some (v_unit d),
          f_desc = v_desc d\<rparr>)"

text \<open>
  The loop \<open>for bits in bits_list\<close>, with the counter \<open>i\<close> and the list \<open>fields\<close> (here
  \<open>fs\<close>) as state.
\<close>

fun pair_fields ::
  "value_def list \<Rightarrow> int list \<Rightarrow> int \<Rightarrow> decoded_field list \<Rightarrow> error + decoded_field list"
where
  "pair_fields ds [] i fs = Inr fs"
| "pair_fields ds (bits # bits_list) i fs =
     (case py_getitem ds i of
        Inl e \<Rightarrow> Inl e
      | Inr d \<Rightarrow> pair_fields ds bits_list (i + 1) (fs @ [value_field d bits]))"

text \<open>
  \<open>analyze_data(bs, stbl)\<close> for one entry of the table. When \<open>extract_bits\<close> returns
  \<open>None\<close> for the mode, the lookup \<open>stbl["mode_dependent_values"][None]\<close> raises
  \<open>KeyError\<close>, since the keys are integers; the mode's dictionary is lost with the
  exception, so its \<open>bits\<close> are an integer in every list that is returned.
\<close>

definition analyze_data :: "byte list \<Rightarrow> schema \<Rightarrow> (error + decoded_field list) option" where
  "analyze_data bs stbl =
     (let sel =
        (case stbl of
           Variant canid name mode_opt mode_dependent_values \<Rightarrow>
             (case mode_opt of
                None \<Rightarrow> Some (Inl TypeError)
              | Some mode_def \<Rightarrow>
                  (case extract_bits bs (v_start mode_def) (v_length mode_def) of
                     None \<Rightarrow> None
                   | Some (Inl e) \<Rightarrow> Some (Inl e)
                   | Some (Inr None) \<Rightarrow> Some (Inl KeyError)
                   | Some (Inr (Some mode)) \<Rightarrow>
                       (case map_of mode_dependent_values mode of
                          None \<Rightarrow> Some (Inl KeyError)
                        | Some ds \<Rightarrow> Some (Inr ([mode_field mode_def mode], ds)))))
         | Simple canid name values \<Rightarrow> Some (Inr ([], values)))
      in case sel of
           None \<Rightarrow> None
         | Some (Inl e) \<Rightarrow> Some (Inl e)
         | Some (Inr (fs, ds)) \<Rightarrow>
             (case split_bits bs (map v_start ds) (- 1) of
                None \<Rightarrow> None
              | Some (Inl e) \<Rightarrow> Some (Inl e)
              | Some (Inr bits_list) \<Rightarrow> Some (pair_fields ds bits_list 0 fs)))"

text \<open>A field definition of type \<open>raw\<close> for the examples below.\<close>

definition raw_field :: "string \<Rightarrow> int \<Rightarrow> int \<Rightarrow> value_def" where
  "raw_field nm st len =
     \<lparr>v_name = nm, v_start = st, v_length = len, v_type = ''raw'', v_resolution = 1,
      v_minimum = 0, v_unit = ''unit'', v_desc = ''desc'', v_mode_signal = 0,
      v_mode_dependent = []\<rparr>"

section \<open>The specification's notions\<close>

text \<open>
  The bit numbering of the specification: bit \<open>0\<close> is the most significant bit of byte
  \<open>0\<close>, bit \<open>8\<close> the most significant bit of byte \<open>1\<close>. \<open>bits_of\<close> lists the bits of a
  buffer in that order, \<open>bits_value\<close> reads a list of bits as an unsigned number, most
  significant bit first, and \<open>range_value bs start stop\<close> is the value of the bits in
  \<open>[start, stop)\<close>.
\<close>

definition bits_of_byte :: "byte \<Rightarrow> bool list" where
  "bits_of_byte w = map (\<lambda>k. bit w (7 - k)) [0..<8]"

definition bits_of :: "byte list \<Rightarrow> bool list" where
  "bits_of bs = concat (map bits_of_byte bs)"

definition bits_value :: "bool list \<Rightarrow> int" where
  "bits_value xs = foldl (\<lambda>a b. 2 * a + (if b then 1 else 0)) 0 xs"

definition range_value :: "byte list \<Rightarrow> int \<Rightarrow> int \<Rightarrow> int" where
  "range_value bs start stop =
     bits_value (take (nat (stop - start)) (drop (nat start) (bits_of bs)))"

text \<open>
  What \<open>split_bits\<close> returns when nothing is out of range, chunk by chunk: \<open>pos\<close> is where
  the next chunk starts, the list holds the offsets after the current one.
\<close>

fun split_spec :: "byte list \<Rightarrow> int \<Rightarrow> int \<Rightarrow> int list \<Rightarrow> int list" where
  "split_spec bs end_pos pos [] =
     (if pos < end_pos then [range_value bs pos end_pos] else [])"
| "split_spec bs end_pos pos (s # rest) =
     (if pos < end_pos
      then range_value bs pos (min end_pos s) #
           split_spec bs end_pos (max pos (min end_pos s)) rest
      else [])"




section \<open>Bits and their values\<close>

lemma foldl_bits_acc:
  fixes a :: int
  defines "f \<equiv> \<lambda>(a::int) (b::bool). 2 * a + (if b then 1 else 0)"
  shows "foldl f a xs = a * 2 ^ length xs + foldl f 0 xs"
proof (induction xs arbitrary: a)
  case Nil
  show ?case by simp
next
  case (Cons x xs)
  have "foldl f a (x # xs) = foldl f (f a x) xs"
    by simp
  also have "\<dots> = f a x * 2 ^ length xs + foldl f 0 xs"
    by (rule Cons.IH)
  also have "f a x = 2 * a + f 0 x"
    by (simp add: f_def)
  finally have "foldl f a (x # xs) = a * 2 ^ length (x # xs) + (f 0 x * 2 ^ length xs + foldl f 0 xs)"
    by (simp add: algebra_simps)
  also have "f 0 x * 2 ^ length xs + foldl f 0 xs = foldl f (f 0 x) xs"
    by (rule Cons.IH [symmetric])
  finally show ?case by simp
qed

lemma bits_value_Nil [simp]: "bits_value [] = 0"
  by (simp add: bits_value_def)

lemma bits_value_append:
  "bits_value (xs @ ys) = bits_value xs * 2 ^ length ys + bits_value ys"
  unfolding bits_value_def foldl_append by (rule foldl_bits_acc)

lemma bits_value_snoc: "bits_value (xs @ [b]) = 2 * bits_value xs + (if b then 1 else 0)"
  by (simp add: bits_value_def)

lemma bits_value_nonneg: "0 \<le> bits_value xs"
  by (induction xs rule: rev_induct) (simp_all add: bits_value_snoc)

lemma bits_value_less: "bits_value xs < 2 ^ length xs"
  by (induction xs rule: rev_induct) (simp_all add: bits_value_snoc)

lemma bits_value_take:
  "bits_value (take k xs) = bits_value xs div 2 ^ (length xs - k)"
proof -
  have "bits_value xs = bits_value (take k xs) * 2 ^ length (drop k xs) + bits_value (drop k xs)"
    using bits_value_append [of "take k xs" "drop k xs"] by simp
  moreover have "0 \<le> bits_value (drop k xs)" "bits_value (drop k xs) < 2 ^ length (drop k xs)"
    by (rule bits_value_nonneg, rule bits_value_less)
  ultimately show ?thesis
    by (simp add: div_pos_pos_trivial)
qed

lemma bits_value_drop:
  "bits_value (drop k xs) = bits_value xs mod 2 ^ (length xs - k)"
proof -
  have "bits_value xs = bits_value (take k xs) * 2 ^ length (drop k xs) + bits_value (drop k xs)"
    using bits_value_append [of "take k xs" "drop k xs"] by simp
  moreover have "0 \<le> bits_value (drop k xs)" "bits_value (drop k xs) < 2 ^ length (drop k xs)"
    by (rule bits_value_nonneg, rule bits_value_less)
  ultimately show ?thesis
    by (simp add: mod_pos_pos_trivial)
qed

lemma bits_value_rev: "bits_value (rev xs) = horner_sum of_bool 2 xs"
  by (induction xs) (simp_all add: bits_value_snoc)

lemma length_bits_of_byte [simp]: "length (bits_of_byte w) = 8"
  by (simp add: bits_of_byte_def)

lemma bits_of_byte_rev: "bits_of_byte w = rev (map (bit (uint w)) [0..<8])"
  by (simp add: bits_of_byte_def upt_rec numeral_nat bit_uint_iff)

lemma bits_value_byte: "bits_value (bits_of_byte w) = uint w"
proof -
  have "bits_value (bits_of_byte w) = take_bit 8 (uint w)"
    by (simp only: bits_of_byte_rev bits_value_rev horner_sum_bit_eq_take_bit)
  also have "\<dots> = uint w"
    using uint_lt2p [of w] by (simp add: take_bit_eq_mod)
  finally show ?thesis .
qed

lemma length_bits_of [simp]: "length (bits_of bs) = 8 * length bs"
  by (induction bs) (simp_all add: bits_of_def)

lemma bits_of_append: "bits_of (xs @ ys) = bits_of xs @ bits_of ys"
  by (simp add: bits_of_def)

lemma bits_of_Cons: "bits_of (w # ws) = bits_of_byte w @ bits_of ws"
  by (simp add: bits_of_def)

lemma bits_of_slice:
  assumes "i < length bs" "8 * i \<le> p" "p \<le> q" "q \<le> 8 * (i + 1)"
  shows "take (q - p) (drop p (bits_of bs)) = take (q - p) (drop (p - 8 * i) (bits_of_byte (bs ! i)))"
proof -
  have "bs = take i bs @ bs ! i # drop (Suc i) bs"
    using assms(1) by (rule id_take_nth_drop)
  then have "bits_of bs = bits_of (take i bs) @ bits_of_byte (bs ! i) @ bits_of (drop (Suc i) bs)"
    by (metis bits_of_append bits_of_Cons)
  moreover have "length (bits_of (take i bs)) = 8 * i"
    using assms(1) by simp
  ultimately have "drop p (bits_of bs) =
      drop (p - 8 * i) (bits_of_byte (bs ! i)) @ bits_of (drop (Suc i) bs)"
    using assms(2,3,4) by simp
  then show ?thesis
    using assms(2,3,4) by simp
qed

lemma byte_slice_value:
  assumes "p \<le> q" "q \<le> 8"
  shows "bits_value (take (q - p) (drop p (bits_of_byte w))) =
         drop_bit (8 - q) (uint w AND drop_bit p 255)"
proof -
  have "(255::int) = mask 8"
    by (simp add: mask_eq_exp_minus_1)
  then have "drop_bit p (255::int) = mask (8 - p)"
    by (simp only: drop_bit_mask_eq)
  then have "uint w AND drop_bit p 255 = uint w mod 2 ^ (8 - p)"
    by (simp add: take_bit_eq_mod flip: take_bit_eq_mask)
  moreover have "bits_value (take (q - p) (drop p (bits_of_byte w))) =
      (uint w mod 2 ^ (8 - p)) div 2 ^ (8 - q)"
    using assms by (simp add: bits_value_take bits_value_drop bits_value_byte)
  ultimately show ?thesis
    by (simp add: drop_bit_eq_div)
qed

lemma range_value_empty: "stop \<le> start \<Longrightarrow> range_value bs start stop = 0"
  by (simp add: range_value_def)

lemma range_value_split:
  assumes "0 \<le> p" "p \<le> q" "q \<le> r" "r \<le> 8 * int (length bs)"
  shows "range_value bs p r = range_value bs p q * 2 ^ nat (r - q) + range_value bs q r"
proof -
  define xs where "xs = bits_of bs"
  have "take (nat (r - p)) (drop (nat p) xs) =
        take (nat (q - p)) (drop (nat p) xs) @ take (nat (r - q)) (drop (nat q) xs)"
  proof -
    have "nat (r - p) = nat (q - p) + nat (r - q)" "nat q = nat (q - p) + nat p"
      using assms by simp_all
    then show ?thesis
      by (simp add: take_add drop_drop)
  qed
  moreover have "length (take (nat (r - q)) (drop (nat q) xs)) = nat (r - q)"
    using assms by (simp add: xs_def)
  ultimately show ?thesis
    unfolding range_value_def xs_def [symmetric]
    by (simp add: bits_value_append)
qed

text \<open>One byte's contribution, as the loop body computes it.\<close>

lemma range_value_in_byte:
  assumes "0 \<le> pos" "pos < to_pos" "to_pos \<le> 8 * (pos div 8 + 1)" "pos div 8 < int (length bs)"
  shows "range_value bs pos to_pos =
         drop_bit (nat (8 * (pos div 8 + 1) - to_pos))
           (uint (bs ! nat (pos div 8)) AND drop_bit (nat (pos mod 8)) 255)"
proof -
  define i where "i = nat (pos div 8)"
  define p where "p = nat pos"
  define q where "q = nat to_pos"
  have i: "i < length bs" "8 * i \<le> p" "p \<le> q" "q \<le> 8 * (i + 1)"
    using assms by (auto simp: i_def p_def q_def)
  have ints: "int p = pos" "int q = to_pos" "int i = pos div 8"
    using assms by (simp_all add: i_def p_def q_def)
  have "int (p - 8 * i) = pos mod 8"
    using i ints by (simp add: minus_mult_div_eq_mod)
  then have pm: "p - 8 * i = nat (pos mod 8)"
    by linarith
  have "int (8 - (q - 8 * i)) = 8 * (pos div 8 + 1) - to_pos"
    using i ints by simp
  then have qm: "8 - (q - 8 * i) = nat (8 * (pos div 8 + 1) - to_pos)"
    by linarith
  have "range_value bs pos to_pos = bits_value (take (q - p) (drop p (bits_of bs)))"
    using assms by (simp add: range_value_def p_def q_def nat_diff_distrib')
  also have "\<dots> = bits_value (take (q - p) (drop (p - 8 * i) (bits_of_byte (bs ! i))))"
    using i by (simp add: bits_of_slice)
  also have "q - p = (q - 8 * i) - (p - 8 * i)"
    using i by simp
  also have "bits_value (take ((q - 8 * i) - (p - 8 * i)) (drop (p - 8 * i) (bits_of_byte (bs ! i)))) =
      drop_bit (8 - (q - 8 * i)) (uint (bs ! i) AND drop_bit (p - 8 * i) 255)"
    using i by (intro byte_slice_value) simp_all
  finally show ?thesis
    unfolding pm qm by (simp only: i_def)
qed

section \<open>The loops of split\_bits\<close>

lemma py_getitem_nat:
  "0 \<le> i \<Longrightarrow> py_getitem xs i = (if i < int (length xs) then Inr (xs ! nat i) else Inl IndexError)"
  by (simp add: py_getitem_def Let_def)

lemma split_bits_inner_done:
  "next_pos \<le> pos \<Longrightarrow>
   split_bits_inner bs next_pos pos rem_len b_index bits = Some (Inr (pos, rem_len, b_index, bits))"
  by (subst split_bits_inner.simps) simp

lemma lt_next_byte: "(pos::int) < 8 * (pos div 8 + 1)"
  by arith

lemma div8_step:
  fixes pos :: int
  assumes "pos < to_pos" "to_pos \<le> 8 * (pos div 8 + 1)"
  shows "to_pos div 8 = (if 8 * (pos div 8 + 1) \<le> to_pos then pos div 8 + 1 else pos div 8)"
proof (cases "8 * (pos div 8 + 1) \<le> to_pos")
  case True
  with assms(2) have "to_pos = 8 * (pos div 8 + 1)"
    by simp
  then show ?thesis
    by simp
next
  case False
  have "pos div 8 \<le> to_pos div 8"
    using assms(1) by (simp add: zdiv_mono1)
  moreover have "to_pos div 8 < pos div 8 + 1"
    using False by arith
  ultimately show ?thesis
    using False by simp
qed

lemma split_bits_inner_step:
  assumes "0 \<le> pos" "pos < next_pos" "pos div 8 < int (length bs)"
  defines "to_pos \<equiv> min next_pos (8 * (pos div 8 + 1))"
  shows "split_bits_inner bs next_pos pos (next_pos - pos) (pos div 8) bits =
         split_bits_inner bs next_pos to_pos (next_pos - to_pos) (to_pos div 8)
           (bits * 2 ^ nat (to_pos - pos) + range_value bs pos to_pos)"
proof -
  have lt: "pos < to_pos"
    using assms(2) lt_next_byte [of pos] by (simp add: to_pos_def)
  have le: "to_pos \<le> 8 * (pos div 8 + 1)"
    by (simp add: to_pos_def)
  have idx: "0 \<le> pos div 8"
    using assms(1) by simp
  have tp: "min (pos + (next_pos - pos)) (8 * (pos div 8 + 1)) = to_pos"
    by (simp add: to_pos_def)
  have mp: "push_bit 3 (pos div 8 + 1) = 8 * (pos div 8 + 1)"
    by (simp add: push_bit_eq_mult)
  have rv: "drop_bit (nat (8 * (pos div 8 + 1) - to_pos))
              (uint (bs ! nat (pos div 8)) AND drop_bit (nat (pos mod 8)) 255) =
            range_value bs pos to_pos"
    using assms(1,3) lt le by (simp add: range_value_in_byte)
  have dv: "(if 8 * (pos div 8 + 1) \<le> to_pos then pos div 8 + 1 else pos div 8) = to_pos div 8"
    using lt le by (simp add: div8_step)
  have ar: "pos + (to_pos - pos) = to_pos" "next_pos - pos - (to_pos - pos) = next_pos - to_pos"
    "(to_pos - pos < 0) = False"
    using lt by simp_all
  have pb: "push_bit (nat (to_pos - pos)) bits = bits * 2 ^ nat (to_pos - pos)"
    by (simp add: push_bit_eq_mult)
  show ?thesis
    apply (subst split_bits_inner.simps)
    apply (simp only: assms(2) if_True py_getitem_nat [OF idx] assms(3) sum.case Let_def mp)
    apply (simp only: tp ar if_False dv rv pb)
    done
qed

lemma split_bits_inner_ok:
  assumes "0 \<le> pos" "pos \<le> next_pos" "next_pos \<le> 8 * int (length bs)"
  shows "split_bits_inner bs next_pos pos (next_pos - pos) (pos div 8) bits =
         Some (Inr (next_pos, 0, next_pos div 8,
                    bits * 2 ^ nat (next_pos - pos) + range_value bs pos next_pos))"
  using assms
proof (induction "nat (next_pos - pos)" arbitrary: pos bits rule: less_induct)
  case less
  show ?case
  proof (cases "pos = next_pos")
    case True
    then show ?thesis
      by (simp add: split_bits_inner_done range_value_empty)
  next
    case False
    define to_pos where "to_pos = min next_pos (8 * (pos div 8 + 1))"
    have lt: "pos < next_pos"
      using False less.prems by simp
    have idx: "pos div 8 < int (length bs)"
      using lt less.prems(3) by arith
    have tp: "pos < to_pos" "to_pos \<le> next_pos"
      using lt lt_next_byte [of pos] by (simp_all add: to_pos_def)
    have "split_bits_inner bs next_pos pos (next_pos - pos) (pos div 8) bits =
          split_bits_inner bs next_pos to_pos (next_pos - to_pos) (to_pos div 8)
            (bits * 2 ^ nat (to_pos - pos) + range_value bs pos to_pos)"
      unfolding to_pos_def using less.prems(1) lt idx by (rule split_bits_inner_step)
    also have "\<dots> = Some (Inr (next_pos, 0, next_pos div 8,
          (bits * 2 ^ nat (to_pos - pos) + range_value bs pos to_pos) * 2 ^ nat (next_pos - to_pos)
            + range_value bs to_pos next_pos))"
      using tp less.prems by (intro less.hyps) simp_all
    also have "(bits * 2 ^ nat (to_pos - pos) + range_value bs pos to_pos) * 2 ^ nat (next_pos - to_pos)
            + range_value bs to_pos next_pos =
          bits * 2 ^ nat (next_pos - pos) + range_value bs pos next_pos"
    proof -
      have "nat (next_pos - pos) = nat (to_pos - pos) + nat (next_pos - to_pos)"
        using tp by simp
      moreover have "range_value bs pos next_pos =
          range_value bs pos to_pos * 2 ^ nat (next_pos - to_pos) + range_value bs to_pos next_pos"
        using less.prems tp by (intro range_value_split) simp_all
      ultimately show ?thesis
        by (simp add: power_add algebra_simps)
    qed
    finally show ?thesis .
  qed
qed

lemma split_bits_inner_err:
  assumes "0 \<le> pos" "pos < next_pos" "8 * int (length bs) < next_pos"
  shows "split_bits_inner bs next_pos pos (next_pos - pos) (pos div 8) bits = Some (Inl IndexError)"
  using assms
proof (induction "nat (next_pos - pos)" arbitrary: pos bits rule: less_induct)
  case less
  show ?case
  proof (cases "pos div 8 < int (length bs)")
    case False
    have "0 \<le> pos div 8"
      using less.prems(1) by simp
    then have "py_getitem bs (pos div 8) = Inl IndexError"
      using False by (simp add: py_getitem_nat)
    then show ?thesis
      using less.prems(2) by (subst split_bits_inner.simps) simp
  next
    case True
    define to_pos where "to_pos = min next_pos (8 * (pos div 8 + 1))"
    have "8 * (pos div 8 + 1) \<le> 8 * int (length bs)"
      using True by simp
    then have tp: "pos < to_pos" "to_pos < next_pos"
      using less.prems lt_next_byte [of pos] by (simp_all add: to_pos_def)
    have "split_bits_inner bs next_pos pos (next_pos - pos) (pos div 8) bits =
          split_bits_inner bs next_pos to_pos (next_pos - to_pos) (to_pos div 8)
            (bits * 2 ^ nat (to_pos - pos) + range_value bs pos to_pos)"
      unfolding to_pos_def using less.prems(1,2) True by (rule split_bits_inner_step)
    also have "\<dots> = Some (Inl IndexError)"
      using tp less.prems by (intro less.hyps) simp_all
    finally show ?thesis .
  qed
qed

lemma split_bits_outer_done:
  "end_pos \<le> pos \<Longrightarrow>
   split_bits_outer bs ss end_pos pos next_pos b_index s_index bits_list = Some (Inr bits_list)"
  by (subst split_bits_outer.simps) simp

lemma split_bits_outer_step:
  assumes "pos < end_pos"
    and "split_bits_inner bs next_pos pos (next_pos - pos) b_index 0 =
           Some (Inr (pos', rem_len', b_index', bits'))"
  shows "split_bits_outer bs ss end_pos pos next_pos b_index s_index bits_list =
         split_bits_outer bs ss end_pos pos' (next_pos_of ss end_pos (s_index + 1)) b_index'
           (s_index + 1) (bits_list @ [bits'])"
  by (subst split_bits_outer.simps) (simp add: assms Let_def)

lemma split_bits_outer_raise:
  assumes "pos < end_pos"
    and "split_bits_inner bs next_pos pos (next_pos - pos) b_index 0 = Some (Inl e)"
  shows "split_bits_outer bs ss end_pos pos next_pos b_index s_index bits_list = Some (Inl e)"
  by (subst split_bits_outer.simps) (simp add: assms)

text \<open>One round of the inner loop from a state the outer loop can be in.\<close>

lemma split_bits_inner_round:
  assumes "0 \<le> pos"
  shows "split_bits_inner bs next_pos pos (next_pos - pos) (pos div 8) 0 =
         Some (if pos < next_pos \<and> 8 * int (length bs) < next_pos then Inl IndexError
               else Inr (max pos next_pos, (if pos \<le> next_pos then 0 else next_pos - pos),
                         max pos next_pos div 8, range_value bs pos next_pos))"
proof (cases "next_pos < pos")
  case True
  then show ?thesis
    by (simp add: split_bits_inner_done range_value_empty max_def)
next
  case False
  show ?thesis
  proof (cases "next_pos \<le> 8 * int (length bs)")
    case True
    then show ?thesis
      using False assms by (simp add: split_bits_inner_ok max_def)
  next
    case le: False
    show ?thesis
    proof (cases "pos = next_pos")
      case True
      then show ?thesis
        by (simp add: split_bits_inner_done range_value_empty)
    next
      case False
      then show ?thesis
        using \<open>\<not> next_pos < pos\<close> le assms by (simp add: split_bits_inner_err)
    qed
  qed
qed

lemma split_spec_done: "end_pos \<le> pos \<Longrightarrow> split_spec bs end_pos pos rest = []"
  by (cases rest) simp_all

lemma split_bits_outer_spec:
  assumes "0 \<le> pos"
  shows "split_bits_outer bs ss end_pos pos (next_pos_of ss end_pos s_index) (pos div 8) s_index bits_list =
         Some (if pos < end_pos \<and> 8 * int (length bs) < end_pos then Inl IndexError
               else Inr (bits_list @ split_spec bs end_pos pos (drop (s_index + 1) ss)))"
  using assms
proof (induction "length ss - (s_index + 1)" arbitrary: pos s_index bits_list)
  case 0
  then have np: "next_pos_of ss end_pos s_index = end_pos" and dr: "drop (Suc s_index) ss = []"
    by (simp_all add: next_pos_of_def)
  show ?case
  proof (cases "pos < end_pos")
    case False
    then show ?thesis
      by (simp add: split_bits_outer_done split_spec_done)
  next
    case True
    have "split_bits_inner bs end_pos pos (end_pos - pos) (pos div 8) 0 =
         Some (if 8 * int (length bs) < end_pos then Inl IndexError
               else Inr (end_pos, 0, end_pos div 8, range_value bs pos end_pos))"
      using True "0.prems" by (simp add: split_bits_inner_round max_def)
    then show ?thesis
      using True
      by (simp add: np dr split_bits_outer_step split_bits_outer_raise split_bits_outer_done)
  qed
next
  case (Suc n)
  define s where "s = ss ! (s_index + 1)"
  define np where "np = min end_pos s"
  define pos' where "pos' = max pos np"
  from Suc.hyps(2) have lt: "s_index + 1 < length ss"
    by simp
  then have npo: "next_pos_of ss end_pos s_index = np"
    by (simp add: next_pos_of_def np_def s_def)
  have dr: "drop (Suc s_index) ss = s # drop (Suc (Suc s_index)) ss"
    using lt by (simp add: s_def Cons_nth_drop_Suc)
  show ?case
  proof (cases "pos < end_pos")
    case False
    then show ?thesis
      by (simp add: split_bits_outer_done split_spec_done)
  next
    case True
    show ?thesis
    proof (cases "pos < np \<and> 8 * int (length bs) < np")
      case True
      then have "split_bits_inner bs np pos (np - pos) (pos div 8) 0 = Some (Inl IndexError)"
        using Suc.prems by (simp add: split_bits_inner_round)
      moreover have "8 * int (length bs) < end_pos"
        using True by (simp add: np_def)
      ultimately show ?thesis
        using \<open>pos < end_pos\<close> by (simp add: npo split_bits_outer_raise)
    next
      case False
      then have inn: "split_bits_inner bs np pos (np - pos) (pos div 8) 0 =
          Some (Inr (pos', (if pos \<le> np then 0 else np - pos), pos' div 8, range_value bs pos np))"
        using Suc.prems by (simp add: split_bits_inner_round pos'_def)
      have "split_bits_outer bs ss end_pos pos np (pos div 8) s_index bits_list =
          split_bits_outer bs ss end_pos pos' (next_pos_of ss end_pos (s_index + 1)) (pos' div 8)
            (s_index + 1) (bits_list @ [range_value bs pos np])"
        by (rule split_bits_outer_step [OF True inn])
      also have "\<dots> = Some (if pos' < end_pos \<and> 8 * int (length bs) < end_pos then Inl IndexError
          else Inr ((bits_list @ [range_value bs pos np]) @
                    split_spec bs end_pos pos' (drop (s_index + 1 + 1) ss)))"
        using Suc.hyps(2) Suc.prems by (intro Suc.hyps(1)) (simp_all add: pos'_def)
      also have "(pos' < end_pos \<and> 8 * int (length bs) < end_pos) = (8 * int (length bs) < end_pos)"
        using True False by (auto simp: pos'_def np_def)
      also have "(bits_list @ [range_value bs pos np]) @
            split_spec bs end_pos pos' (drop (s_index + 1 + 1) ss) =
          bits_list @ split_spec bs end_pos pos (drop (s_index + 1) ss)"
        using True by (simp add: dr pos'_def np_def)
      finally show ?thesis
        using True by (simp add: npo)
    qed
  qed
qed

text \<open>The whole function, for a first offset that is not negative.\<close>

lemma split_bits_spec:
  assumes "ss \<noteq> []" "0 \<le> hd ss"
  shows "split_bits bs ss e =
         Some (if hd ss < end_pos_of bs e \<and> 8 * int (length bs) < end_pos_of bs e
               then Inl IndexError
               else Inr (split_spec bs (end_pos_of bs e) (hd ss) (tl ss)))"
proof -
  have "py_getitem ss 0 = Inr (hd ss)"
    using assms(1) by (cases ss) (simp_all add: py_getitem_def)
  then show ?thesis
    using split_bits_outer_spec [OF assms(2), of bs ss "end_pos_of bs e" 0 "[]"]
    by (simp add: split_bits_def drop_bit_eq_div drop_Suc Let_def)
qed

lemma split_bits_empty: "split_bits bs [] e = Some (Inl IndexError)"
  by (simp add: split_bits_def py_getitem_def)

section \<open>The result of split\_bits for ascending offsets\<close>

lemma next_pos_of_Cons:
  "next_pos_of (s # ss) end_pos (Suc k) = next_pos_of ss end_pos k"
  by (simp add: next_pos_of_def)


lemma sorted_filter_ge:
  fixes E :: int
  assumes "sorted (s # rest)" "E \<le> s"
  shows "filter (\<lambda>x. x < E) (s # rest) = []"
  using assms by (auto simp: filter_empty_conv)

lemma split_spec_sorted_length:
  "sorted (pos # rest) \<Longrightarrow>
   length (split_spec bs end_pos pos rest) = length (filter (\<lambda>s. s < end_pos) (pos # rest))"
proof (induction rest arbitrary: pos)
  case Nil
  show ?case by simp
next
  case (Cons s rest)
  show ?case
  proof (cases "pos < end_pos")
    case False
    then have "filter (\<lambda>x. x < end_pos) (pos # s # rest) = []"
      using Cons.prems by (intro sorted_filter_ge) simp_all
    then show ?thesis
      using False by simp
  next
    case True
    have le: "pos \<le> s" and srt: "sorted (s # rest)"
      using Cons.prems by simp_all
    show ?thesis
    proof (cases "s < end_pos")
      case True
      then have "max pos (min end_pos s) = s"
        using le by simp
      then show ?thesis
        using \<open>pos < end_pos\<close> Cons.IH [OF srt] by simp
    next
      case False
      then have "max pos (min end_pos s) = end_pos"
        using \<open>pos < end_pos\<close> by simp
      moreover have "filter (\<lambda>x. x < end_pos) (s # rest) = []"
        using srt False by (intro sorted_filter_ge) simp_all
      ultimately show ?thesis
        using \<open>pos < end_pos\<close> by (simp add: split_spec_done)
    qed
  qed
qed

lemma split_spec_sorted_nth:
  "sorted (pos # rest) \<Longrightarrow> k < length (split_spec bs end_pos pos rest) \<Longrightarrow>
   split_spec bs end_pos pos rest ! k =
     range_value bs ((pos # rest) ! k) (next_pos_of (pos # rest) end_pos k)"
proof (induction rest arbitrary: pos k)
  case Nil
  then show ?case
    by (simp add: next_pos_of_def split: if_splits)
next
  case (Cons s rest)
  have lt: "pos < end_pos"
    using Cons.prems(2) by (simp split: if_splits)
  have le: "pos \<le> s" and srt: "sorted (s # rest)"
    using Cons.prems(1) by simp_all
  show ?case
  proof (cases k)
    case 0
    then show ?thesis
      using lt by (simp add: next_pos_of_def)
  next
    case (Suc j)
    have s: "s < end_pos"
    proof (rule ccontr)
      assume "\<not> s < end_pos"
      then have "max pos (min end_pos s) = end_pos"
        using lt by simp
      then show False
        using Cons.prems(2) lt Suc by (simp add: split_spec_done)
    qed
    then have mx: "max pos (min end_pos s) = s"
      using le by simp
    have "j < length (split_spec bs end_pos s rest)"
      using Cons.prems(2) lt Suc by (simp add: mx)
    then have "split_spec bs end_pos s rest ! j =
        range_value bs ((s # rest) ! j) (next_pos_of (s # rest) end_pos j)"
      using srt by (intro Cons.IH)
    then show ?thesis
      using lt Suc by (simp add: mx next_pos_of_Cons)
  qed
qed

lemma sorted_le_last:
  fixes ss :: "int list"
  shows "sorted ss \<Longrightarrow> x \<in> set ss \<Longrightarrow> x \<le> last ss"
  by (induction ss) auto

lemma length_filter_full: "length (filter P xs) = length xs \<longleftrightarrow> (\<forall>x\<in>set xs. P x)"
proof (induction xs)
  case Nil
  show ?case by simp
next
  case (Cons a xs)
  have "length (filter P xs) \<le> length xs"
    by simp
  then have "length (filter P xs) \<noteq> Suc (length xs)"
    by linarith
  then show ?case
    using Cons by auto
qed

text \<open>The result of \<open>split_bits\<close> for ascending offsets inside the buffer.\<close>

lemma split_bits_sorted:
  assumes "ss \<noteq> []" "sorted ss" "0 \<le> hd ss" "end_pos_of bs e \<le> 8 * int (length bs)"
  shows "\<exists>xs. split_bits bs ss e = Some (Inr xs) \<and>
           length xs = length (filter (\<lambda>s. s < end_pos_of bs e) ss) \<and>
           (\<forall>k<length xs. xs ! k = range_value bs (ss ! k) (next_pos_of ss (end_pos_of bs e) k))"
proof -
  obtain pos rest where ss: "ss = pos # rest"
    using assms(1) by (cases ss) auto
  define xs where "xs = split_spec bs (end_pos_of bs e) pos rest"
  have "split_bits bs ss e = Some (Inr xs)"
    using assms(3,4) by (simp add: split_bits_spec ss xs_def)
  moreover have "length xs = length (filter (\<lambda>s. s < end_pos_of bs e) ss)"
    using assms(2) unfolding xs_def ss by (rule split_spec_sorted_length)
  moreover have "\<forall>k<length xs. xs ! k = range_value bs (ss ! k) (next_pos_of ss (end_pos_of bs e) k)"
    using assms(2) unfolding xs_def ss by (simp add: split_spec_sorted_nth)
  ultimately show ?thesis
    by blast
qed

lemma extract_bits_spec:
  assumes "0 \<le> s" "0 < l"
  shows "split_bits bs [s] (s + l) =
           Some (if 8 * int (length bs) < s + l then Inl IndexError
                 else Inr [range_value bs s (s + l)])"
    and "extract_bits bs s l =
           Some (if 8 * int (length bs) < s + l then Inl IndexError
                 else Inr (Some (range_value bs s (s + l))))"
proof -
  have e: "end_pos_of bs (s + l) = s + l"
    using assms by (simp add: end_pos_of_def)
  show sp: "split_bits bs [s] (s + l) =
           Some (if 8 * int (length bs) < s + l then Inl IndexError
                 else Inr [range_value bs s (s + l)])"
    using assms by (simp add: split_bits_spec e)
  show "extract_bits bs s l =
           Some (if 8 * int (length bs) < s + l then Inl IndexError
                 else Inr (Some (range_value bs s (s + l))))"
    by (simp add: extract_bits_def sp)
qed

lemma extract_bits_empty:
  assumes "0 \<le> s"
  shows "extract_bits bs s 0 = Some (Inr None)"
proof -
  have "end_pos_of bs (s + 0) = s"
    using assms by (simp add: end_pos_of_def)
  then have "split_bits bs [s] (s + 0) = Some (Inr [])"
    using assms by (simp add: split_bits_spec)
  then show ?thesis
    by (simp add: extract_bits_def)
qed

section \<open>The bit extractor\<close>

text \<open>
  Claim C1. For ascending offsets that start at a non-negative position and an end
  inside the buffer, \<open>split_bits\<close> returns, and every integer it returns is the value of
  the bits between its offset and the next boundary, most significant bit first,
  wherever the range lies in its bytes. \<open>extract_bits\<close> returns the value of the bits in
  \<open>[s, s + l)\<close> for a range inside the buffer. For the bytes \<open>0xAB, 0xCD\<close>,
  \<open>extract_bits(buffer, 4, 8)\<close> is \<open>188\<close>.
\<close>

theorem C1_chunk_values:
  "(\<forall>bs ss e. ss \<noteq> [] \<and> sorted ss \<and> 0 \<le> hd ss \<and> end_pos_of bs e \<le> 8 * int (length bs) \<longrightarrow>
      (\<exists>xs. split_bits bs ss e = Some (Inr xs) \<and>
         (\<forall>k<length xs.
            xs ! k = range_value bs (ss ! k) (next_pos_of ss (end_pos_of bs e) k)))) \<and>
   (\<forall>bs s l. 0 \<le> s \<and> 0 < l \<and> s + l \<le> 8 * int (length bs) \<longrightarrow>
      extract_bits bs s l = Some (Inr (Some (range_value bs s (s + l))))) \<and>
   extract_bits [0xAB, 0xCD] 4 8 = Some (Inr (Some 188))"
proof (intro conjI allI impI)
  fix bs :: "byte list" and ss :: "int list" and e :: int
  assume "ss \<noteq> [] \<and> sorted ss \<and> 0 \<le> hd ss \<and> end_pos_of bs e \<le> 8 * int (length bs)"
  then show "\<exists>xs. split_bits bs ss e = Some (Inr xs) \<and>
         (\<forall>k<length xs.
            xs ! k = range_value bs (ss ! k) (next_pos_of ss (end_pos_of bs e) k))"
    using split_bits_sorted [of ss bs e] by blast
next
  fix bs :: "byte list" and s l :: int
  assume "0 \<le> s \<and> 0 < l \<and> s + l \<le> 8 * int (length bs)"
  then show "extract_bits bs s l = Some (Inr (Some (range_value bs s (s + l))))"
    by (simp add: extract_bits_spec(2))
next
  show "extract_bits [0xAB, 0xCD] 4 8 = Some (Inr (Some 188))"
    by (simp add: extract_bits_def split_bits_def split_bits_outer.simps
        split_bits_inner.simps py_getitem_def end_pos_of_def next_pos_of_def Let_def)
qed

text \<open>
  The theorem applied to the bytes \<open>0xAB, 0xCD\<close>: to the range \<open>[4, 12)\<close>, and to the
  offsets \<open>[0, 4, 12]\<close>.
\<close>

theorem C1_chunk_values_witness:
  "range_value [0xAB, 0xCD] 4 (4 + 8) = 188 \<and>
   (\<exists>xs. split_bits [0xAB, 0xCD] [0, 4, 12] (- 1) = Some (Inr xs) \<and>
         xs ! 1 = range_value [0xAB, 0xCD] 4 12)"
proof -
  have "(0::int) \<le> 4 \<and> (0::int) < 8 \<and> (4::int) + 8 \<le> 8 * int (length [0xAB, 0xCD :: byte])"
    by simp
  then have "extract_bits [0xAB, 0xCD] 4 8 = Some (Inr (Some (range_value [0xAB, 0xCD] 4 (4 + 8))))"
    using C1_chunk_values by blast
  moreover have "extract_bits [0xAB, 0xCD] 4 8 = Some (Inr (Some 188))"
    using C1_chunk_values by blast
  ultimately have v: "range_value [0xAB, 0xCD] 4 (4 + 8) = 188"
    by simp
  have e: "end_pos_of [0xAB, 0xCD] (- 1) = 16"
    by (simp add: end_pos_of_def)
  have "[0, 4, 12 :: int] \<noteq> [] \<and> sorted [0, 4, 12 :: int] \<and> 0 \<le> hd [0, 4, 12 :: int] \<and>
      end_pos_of [0xAB, 0xCD] (- 1) \<le> 8 * int (length [0xAB, 0xCD :: byte])"
    by (simp add: e)
  then obtain xs where xs: "split_bits [0xAB, 0xCD] [0, 4, 12] (- 1) = Some (Inr xs)"
      "\<forall>k<length xs. xs ! k =
         range_value [0xAB, 0xCD] ([0, 4, 12] ! k)
           (next_pos_of [0, 4, 12] (end_pos_of [0xAB, 0xCD] (- 1)) k)"
    using C1_chunk_values by blast
  have "split_bits [0xAB, 0xCD] [0, 4, 12] (- 1) = Some (Inr [10, 188, 13])"
    by (simp add: split_bits_def split_bits_outer.simps split_bits_inner.simps py_getitem_def
        end_pos_of_def next_pos_of_def Let_def)
  then have "length xs = 3"
    using xs(1) by simp
  then have "xs ! 1 = range_value [0xAB, 0xCD] 4 12"
    using xs(2) [rule_format, of 1] by (simp add: next_pos_of_def e)
  then show ?thesis
    using v xs(1) by blast
qed

text \<open>
  Claim C2, as stated, fails: with one byte, offsets \<open>[0, 8]\<close> and end \<open>8\<close> the loop
  \<open>while (pos < end_pos)\<close> stops after the first chunk, so one integer is returned for
  two offsets, and the final chunk whose start equals the end is not there.
\<close>

theorem C2_counterexample:
  "split_bits [0xAB] [0, 8] 8 = Some (Inr [0xAB]) \<and>
   split_bits [0xAB] [0, 8] 8 \<noteq> Some (Inr [0xAB, 0])"
  by (simp add: split_bits_def split_bits_outer.simps
      split_bits_inner.simps py_getitem_def end_pos_of_def next_pos_of_def Let_def)

text \<open>
  Claim C2, amended. For non-empty ascending offsets from a non-negative position and an
  end with \<open>max(O) \<le> end \<le> 8 * len(B)\<close>, \<open>split_bits\<close> returns one integer per offset
  strictly below the end, so \<open>len(O)\<close> integers exactly when the last offset is below the
  end; each is the value of the bits from its offset to the next offset (to the end for
  the last offset), and a chunk between two equal consecutive offsets is \<open>0\<close>.
\<close>

theorem C2_chunk_count:
  assumes "ss \<noteq> []" "sorted ss" "0 \<le> hd ss" "last ss \<le> e" "e \<le> 8 * int (length bs)"
  shows "\<exists>xs. split_bits bs ss e = Some (Inr xs) \<and>
           length xs = length (filter (\<lambda>s. s < e) ss) \<and>
           (length xs = length ss \<longleftrightarrow> last ss < e) \<and>
           (\<forall>k<length xs.
              xs ! k = range_value bs (ss ! k) (if k + 1 < length ss then ss ! (k + 1) else e)) \<and>
           (\<forall>k<length xs. k + 1 < length ss \<and> ss ! k = ss ! (k + 1) \<longrightarrow> xs ! k = 0)"
proof -
  have "hd ss \<le> last ss"
    using assms(1,2) by (simp add: sorted_le_last)
  then have e: "end_pos_of bs e = e"
    using assms(3,4) by (simp add: end_pos_of_def)
  have up: "\<forall>s\<in>set ss. s \<le> e"
    using assms(2,4) sorted_le_last [of ss] by fastforce
  obtain xs where xs: "split_bits bs ss e = Some (Inr xs)"
      "length xs = length (filter (\<lambda>s. s < e) ss)"
      "\<forall>k<length xs. xs ! k = range_value bs (ss ! k) (next_pos_of ss e k)"
    using split_bits_sorted [OF assms(1,2,3), of bs e] assms(5) unfolding e by blast
  have np: "next_pos_of ss e k = (if k + 1 < length ss then ss ! (k + 1) else e)" for k
  proof (cases "k + 1 < length ss")
    case True
    then have "ss ! (k + 1) \<le> e"
      using up nth_mem by blast
    then show ?thesis
      using True by (simp add: next_pos_of_def)
  next
    case False
    then show ?thesis
      by (simp add: next_pos_of_def)
  qed
  have full: "(length xs = length ss) = (last ss < e)"
  proof
    assume "length xs = length ss"
    then have "\<forall>s\<in>set ss. s < e"
      using xs(2) by (simp add: length_filter_full)
    then show "last ss < e"
      using assms(1) by simp
  next
    assume "last ss < e"
    then have "\<forall>s\<in>set ss. s < e"
      using assms(2) sorted_le_last [of ss] by fastforce
    then show "length xs = length ss"
      using xs(2) by (simp add: length_filter_full)
  qed
  have zero: "\<forall>k<length xs. k + 1 < length ss \<and> ss ! k = ss ! (k + 1) \<longrightarrow> xs ! k = 0"
    using xs(3) by (simp add: np range_value_empty)
  show ?thesis
    using xs(1,2) full xs(3) zero unfolding np by blast
qed

text \<open>The theorem applied to two bytes, the offsets \<open>[0, 4, 4, 16]\<close> and the end \<open>16\<close>.\<close>

theorem C2_chunk_count_witness:
  "\<exists>xs. split_bits [0xAB, 0xCD] [0, 4, 4, 16] 16 = Some (Inr xs) \<and> length xs = 3 \<and> xs ! 1 = 0"
proof -
  have "\<exists>xs. split_bits [0xAB, 0xCD] [0, 4, 4, 16] 16 = Some (Inr xs) \<and>
           length xs = length (filter (\<lambda>s. s < 16) [0, 4, 4, 16 :: int]) \<and>
           (length xs = length [0, 4, 4, 16 :: int] \<longleftrightarrow> last [0, 4, 4, 16 :: int] < 16) \<and>
           (\<forall>k<length xs.
              xs ! k = range_value [0xAB, 0xCD] ([0, 4, 4, 16] ! k)
                (if k + 1 < length [0, 4, 4, 16 :: int] then [0, 4, 4, 16] ! (k + 1) else 16)) \<and>
           (\<forall>k<length xs. k + 1 < length [0, 4, 4, 16 :: int] \<and>
               [0, 4, 4, 16 :: int] ! k = [0, 4, 4, 16] ! (k + 1) \<longrightarrow> xs ! k = 0)"
    by (rule C2_chunk_count) simp_all
  then obtain xs where xs: "split_bits [0xAB, 0xCD] [0, 4, 4, 16] 16 = Some (Inr xs)"
      "length xs = length (filter (\<lambda>s. s < 16) [0, 4, 4, 16 :: int])"
      "\<forall>k<length xs. k + 1 < length [0, 4, 4, 16 :: int] \<and>
               [0, 4, 4, 16 :: int] ! k = [0, 4, 4, 16] ! (k + 1) \<longrightarrow> xs ! k = 0"
    by blast
  have "length xs = 3"
    using xs(2) by simp
  moreover from this have "xs ! 1 = 0"
    using xs(3) [rule_format, of 1] by simp
  ultimately show ?thesis
    using xs(1) by blast
qed

text \<open>
  Claim C3, as stated, fails: an offset beyond the buffer is cut to the end position by
  \<open>min(end_pos, ss[s_index + 1])\<close>, and a first offset at or beyond the end position skips
  the loop, so a result comes back without an error.
\<close>

theorem C3_counterexample:
  "split_bits [0xAB] [0, 100] (- 1) = Some (Inr [0xAB]) \<and>
   split_bits [0xAB] [16] (- 1) = Some (Inr []) \<and>
   extract_bits [0xAB] 16 0 = Some (Inr None)"
  by (simp add: extract_bits_def split_bits_def split_bits_outer.simps
      split_bits_inner.simps py_getitem_def end_pos_of_def next_pos_of_def Let_def)

text \<open>
  Claim C3, amended. With a non-negative first offset, \<open>split_bits\<close> raises \<open>IndexError\<close>
  exactly when the end position exceeds \<open>8 * len(B)\<close> and the first offset is below it,
  and it returns a list whenever the end position is inside the buffer, whatever the
  later offsets are. \<open>extract_bits\<close> with a positive length raises \<open>IndexError\<close> exactly
  when \<open>s + l\<close> exceeds \<open>8 * len(B)\<close>. Both raise on the empty buffer when asked for its
  first byte.
\<close>

theorem C3_out_of_range:
  "(ss \<noteq> [] \<and> 0 \<le> hd ss \<longrightarrow>
      (split_bits bs ss e = Some (Inl IndexError) \<longleftrightarrow>
         hd ss < end_pos_of bs e \<and> 8 * int (length bs) < end_pos_of bs e)) \<and>
   (ss \<noteq> [] \<and> 0 \<le> hd ss \<and> end_pos_of bs e \<le> 8 * int (length bs) \<longrightarrow>
      (\<exists>xs. split_bits bs ss e = Some (Inr xs))) \<and>
   (0 \<le> s \<and> 0 < l \<longrightarrow>
      (extract_bits bs s l = Some (Inl IndexError) \<longleftrightarrow> 8 * int (length bs) < s + l)) \<and>
   split_bits [] [0] 8 = Some (Inl IndexError) \<and>
   extract_bits [] 0 8 = Some (Inl IndexError)"
proof (intro conjI impI)
  assume "ss \<noteq> [] \<and> 0 \<le> hd ss"
  then show "split_bits bs ss e = Some (Inl IndexError) \<longleftrightarrow>
         hd ss < end_pos_of bs e \<and> 8 * int (length bs) < end_pos_of bs e"
    by (simp add: split_bits_spec)
next
  assume "ss \<noteq> [] \<and> 0 \<le> hd ss \<and> end_pos_of bs e \<le> 8 * int (length bs)"
  then show "\<exists>xs. split_bits bs ss e = Some (Inr xs)"
    by (simp add: split_bits_spec)
next
  assume "0 \<le> s \<and> 0 < l"
  then show "extract_bits bs s l = Some (Inl IndexError) \<longleftrightarrow> 8 * int (length bs) < s + l"
    by (simp add: extract_bits_spec(2))
next
  show "split_bits [] [0] 8 = Some (Inl IndexError)"
    by (simp add: split_bits_spec end_pos_of_def)
next
  show "extract_bits [] 0 8 = Some (Inl IndexError)"
    by (simp add: extract_bits_spec(2))
qed

text \<open>The theorem applied to one byte and an end, or a range, that reaches past it.\<close>

theorem C3_out_of_range_witness:
  "split_bits [0xAB] [0] 16 = Some (Inl IndexError) \<and>
   extract_bits [0xAB] 4 8 = Some (Inl IndexError)"
proof -
  have "split_bits [0xAB] [0] 16 = Some (Inl IndexError) \<longleftrightarrow>
         hd [0 :: int] < end_pos_of [0xAB] 16 \<and> 8 * int (length [0xAB :: byte]) < end_pos_of [0xAB] 16"
    using C3_out_of_range [of "[0]" "[0xAB]" 16] by simp
  moreover have "extract_bits [0xAB] 4 8 = Some (Inl IndexError) \<longleftrightarrow> 8 * int (length [0xAB :: byte]) < 4 + 8"
    using C3_out_of_range [of _ "[0xAB]" _ 4 8] by simp
  ultimately show ?thesis
    by (simp add: end_pos_of_def)
qed

text \<open>
  Claim C5, as stated, fails: for a length of \<open>0\<close> the loop of \<open>split_bits\<close> is skipped,
  the list is empty, and \<open>extract_bits\<close> returns \<open>None\<close>, the "no data" indicator.
\<close>

theorem C5_counterexample:
  "extract_bits [0xAB] 0 0 = Some (Inr None)"
  by (simp add: extract_bits_def split_bits_def split_bits_outer.simps
      py_getitem_def end_pos_of_def next_pos_of_def Let_def)

text \<open>
  Claim C5, amended. For a non-negative start and a positive length, either
  \<open>split_bits(bs, [s], s + l)\<close> returns a list of one integer and \<open>extract_bits\<close> returns
  that integer, or both raise \<open>IndexError\<close>; \<open>None\<close> is not returned. For a length of
  \<open>0\<close>, \<open>extract_bits\<close> returns \<open>None\<close>.
\<close>

theorem C5_extract_is_split:
  "(0 \<le> s \<and> 0 < l \<longrightarrow>
      (\<exists>v. split_bits bs [s] (s + l) = Some (Inr [v]) \<and>
            extract_bits bs s l = Some (Inr (Some v))) \<or>
      (split_bits bs [s] (s + l) = Some (Inl IndexError) \<and>
       extract_bits bs s l = Some (Inl IndexError))) \<and>
   (0 \<le> s \<longrightarrow> extract_bits bs s 0 = Some (Inr None))"
proof (intro conjI impI)
  assume a: "0 \<le> s \<and> 0 < l"
  show "(\<exists>v. split_bits bs [s] (s + l) = Some (Inr [v]) \<and>
            extract_bits bs s l = Some (Inr (Some v))) \<or>
      (split_bits bs [s] (s + l) = Some (Inl IndexError) \<and>
       extract_bits bs s l = Some (Inl IndexError))"
  proof (cases "8 * int (length bs) < s + l")
    case True
    then show ?thesis
      using a by (simp add: extract_bits_spec)
  next
    case False
    then show ?thesis
      using a by (simp add: extract_bits_spec)
  qed
next
  assume "0 \<le> s"
  then show "extract_bits bs s 0 = Some (Inr None)"
    by (rule extract_bits_empty)
qed

text \<open>The theorem applied to the range \<open>[4, 12)\<close> of the bytes \<open>0xAB, 0xCD\<close>.\<close>

theorem C5_extract_is_split_witness:
  "split_bits [0xAB, 0xCD] [4] (4 + 8) = Some (Inr [188]) \<and>
   extract_bits [0xAB, 0xCD] 4 8 = Some (Inr (Some 188))"
proof -
  have e: "extract_bits [0xAB, 0xCD] 4 8 = Some (Inr (Some 188))"
    by (simp add: extract_bits_def split_bits_def split_bits_outer.simps
        split_bits_inner.simps py_getitem_def end_pos_of_def next_pos_of_def Let_def)
  have "(\<exists>v. split_bits [0xAB, 0xCD] [4] (4 + 8) = Some (Inr [v]) \<and>
            extract_bits [0xAB, 0xCD] 4 8 = Some (Inr (Some v))) \<or>
      (split_bits [0xAB, 0xCD] [4] (4 + 8) = Some (Inl IndexError) \<and>
       extract_bits [0xAB, 0xCD] 4 8 = Some (Inl IndexError))"
    using C5_extract_is_split [of 4 8 "[0xAB, 0xCD]"] by simp
  then show ?thesis
    using e by auto
qed

section \<open>The decoder\<close>





lemma filter_starts:
  "length (filter (\<lambda>s. s < E) (map v_start ds)) = length (filter (\<lambda>d. v_start d < E) ds)"
  by (induction ds) simp_all








lemmas split_bits_eval =
  extract_bits_def split_bits_def split_bits_outer.simps split_bits_inner.simps
  py_getitem_def end_pos_of_def next_pos_of_def Let_def

lemmas analyze_data_eval =
  analyze_data_def split_bits_eval value_field_def mode_field_def raw_field_def






text \<open>
  Claim C6. When the mode that \<open>extract_bits\<close> returns is no key of
  \<open>mode_dependent_values\<close>, \<open>analyze_data\<close> raises \<open>KeyError\<close> (the specification's
  \<open>UnknownMode\<close>): the result is the exception and no list of fields, the mode's field
  included. The second part states the same for a mode range inside the buffer, where
  the mode is the value of that range.
\<close>

theorem C6_unknown_mode:
  "(extract_bits bs (v_start m) (v_length m) = Some (Inr (Some mode)) \<and>
    map_of mdv mode = None \<longrightarrow>
      analyze_data bs (Variant canid nm (Some m) mdv) = Some (Inl KeyError)) \<and>
   (0 \<le> v_start m \<and> 0 < v_length m \<and> v_start m + v_length m \<le> 8 * int (length bs) \<and>
    map_of mdv (range_value bs (v_start m) (v_start m + v_length m)) = None \<longrightarrow>
      analyze_data bs (Variant canid nm (Some m) mdv) = Some (Inl KeyError))"
proof (intro conjI impI)
  assume "extract_bits bs (v_start m) (v_length m) = Some (Inr (Some mode)) \<and>
    map_of mdv mode = None"
  then show "analyze_data bs (Variant canid nm (Some m) mdv) = Some (Inl KeyError)"
    by (simp add: analyze_data_def)
next
  assume a: "0 \<le> v_start m \<and> 0 < v_length m \<and> v_start m + v_length m \<le> 8 * int (length bs) \<and>
    map_of mdv (range_value bs (v_start m) (v_start m + v_length m)) = None"
  then have "extract_bits bs (v_start m) (v_length m) =
      Some (Inr (Some (range_value bs (v_start m) (v_start m + v_length m))))"
    by (simp add: extract_bits_spec(2))
  then show "analyze_data bs (Variant canid nm (Some m) mdv) = Some (Inl KeyError)"
    using a by (simp add: analyze_data_def)
qed

text \<open>The theorem applied to the modes \<open>0\<close> and \<open>1\<close> and a payload whose first nibble is \<open>2\<close>.\<close>

theorem C6_unknown_mode_witness:
  "analyze_data [0x2B] (Variant 1 ''msg'' (Some (raw_field ''mode'' 0 4))
     [(0, [raw_field ''a'' 4 4]), (1, [raw_field ''b'' 4 4])]) = Some (Inl KeyError)"
proof -
  define m where "m = raw_field ''mode'' 0 4"
  define mdv where "mdv = [(0 :: int, [raw_field ''a'' 4 4]), (1, [raw_field ''b'' 4 4])]"
  have "extract_bits [0x2B] (v_start m) (v_length m) = Some (Inr (Some 2))"
    by (simp add: m_def raw_field_def split_bits_eval)
  moreover have "map_of mdv 2 = None"
    by (simp add: mdv_def)
  ultimately show ?thesis
    using C6_unknown_mode [of "[0x2B]" m 2 mdv 1 "''msg''"] unfolding m_def mdv_def by blast
qed

text \<open>
  Claim C4. The field \<open>analyze_data\<close> emits for the mode has the mode definition's name
  and description, and the extracted integer as \<open>bits\<close> and as \<open>value\<close>, whatever the
  definition's type is; but it has no \<open>unit\<close>: the dictionary the source appends has the
  keys \<open>name\<close>, \<open>bits\<close>, \<open>value\<close> and \<open>desc\<close> only, while the dictionaries of the other
  fields carry \<open>unit\<close>. The last part evaluates a variant schema whose mode is declared
  \<open>float\<close> with the unit \<open>unit\<close> on the payload \<open>0x1B\<close>.
\<close>

theorem C4_mode_field:
  "f_name (mode_field m mode) = v_name m \<and> f_bits (mode_field m mode) = mode \<and>
   f_value (mode_field m mode) = IntV mode \<and> f_desc (mode_field m mode) = v_desc m \<and>
   f_unit (mode_field m mode) = None \<and>
   analyze_data [0x1B]
     (Variant 1 ''msg''
        (Some ((raw_field ''mode'' 0 4)
                 \<lparr>v_type := ''float'', v_resolution := 0.5, v_mode_signal := 1\<rparr>))
        [(1, [(raw_field ''a'' 4 4)\<lparr>v_mode_dependent := ''1''\<rparr>])]) =
   Some (Inr [\<lparr>f_name = ''mode'', f_bits = 1, f_value = IntV 1, f_unit = None,
                f_desc = ''desc''\<rparr>,
              \<lparr>f_name = ''a'', f_bits = 11, f_value = IntV 11, f_unit = Some ''unit'',
                f_desc = ''desc''\<rparr>])"
  by (simp add: analyze_data_eval)

section \<open>Hexadecimal payloads\<close>






lemmas py_int16_eval =
  py_int16_def py_isspace_def digit_value_def digit_or_underscore_def digits_value_def










section \<open>The signal definition table\<close>

lemma load_records_append:
  "load_records (rs @ rs') stbl =
     (case load_records rs stbl of Inl e \<Rightarrow> Inl e | Inr t \<Rightarrow> load_records rs' t)"
  by (induction rs arbitrary: stbl) (auto split: sum.splits)

lemma load_records_distinct:
  "load_records rs stbl = Inr tbl \<Longrightarrow> distinct (map fst stbl) \<Longrightarrow> distinct (map fst tbl)"
proof (induction rs arbitrary: stbl)
  case Nil
  then show ?case by simp
next
  case (Cons r rs)
  obtain canid where c: "py_int16 (r_id r) = Inr canid"
    using Cons.prems(1) by (auto split: sum.splits)
  show ?case
  proof (cases "map_of stbl canid")
    case (Some e)
    then show ?thesis
      using Cons c by simp
  next
    case None
    then obtain entry where e: "schema_of canid r = Inr entry"
        "load_records rs (stbl @ [(canid, entry)]) = Inr tbl"
      using Cons.prems(1) c by (auto split: sum.splits)
    have "canid \<notin> fst ` set stbl"
      using None by (simp add: map_of_eq_None_iff)
    then have "distinct (map fst (stbl @ [(canid, entry)]))"
      using Cons.prems(2) by simp
    then show ?thesis
      using e(2) by (rule Cons.IH [rotated])
  qed
qed

text \<open>
  The table \<open>load_records\<close> returns, key by key: what the table held before, and else
  the entry of the first record that has the key.
\<close>

lemma load_records_lookup:
  "load_records rs stbl = Inr tbl \<Longrightarrow>
   map_of tbl cid =
     (case map_of stbl cid of
        Some e \<Rightarrow> Some e
      | None \<Rightarrow>
          (case find (\<lambda>r. py_int16 (r_id r) = Inr cid) rs of
             None \<Rightarrow> None
           | Some r \<Rightarrow> (case schema_of cid r of Inl e \<Rightarrow> None | Inr entry \<Rightarrow> Some entry)))"
proof (induction rs arbitrary: stbl)
  case Nil
  then show ?case
    by (auto split: option.splits)
next
  case (Cons r rs)
  obtain canid where c: "py_int16 (r_id r) = Inr canid"
    using Cons.prems by (auto split: sum.splits)
  show ?case
  proof (cases "map_of stbl canid")
    case (Some e)
    then have "load_records rs stbl = Inr tbl"
      using Cons.prems c by simp
    then have "map_of tbl cid =
        (case map_of stbl cid of
           Some e \<Rightarrow> Some e
         | None \<Rightarrow>
             (case find (\<lambda>r. py_int16 (r_id r) = Inr cid) rs of
                None \<Rightarrow> None
              | Some r \<Rightarrow> (case schema_of cid r of Inl e \<Rightarrow> None | Inr entry \<Rightarrow> Some entry)))"
      by (rule Cons.IH)
    moreover have "map_of stbl cid = None \<Longrightarrow> cid \<noteq> canid"
      using Some by auto
    ultimately show ?thesis
      using c by (auto split: option.splits)
  next
    case None
    then obtain entry where e: "schema_of canid r = Inr entry"
        "load_records rs (stbl @ [(canid, entry)]) = Inr tbl"
      using Cons.prems c by (auto split: sum.splits)
    have "map_of tbl cid =
        (case map_of (stbl @ [(canid, entry)]) cid of
           Some e \<Rightarrow> Some e
         | None \<Rightarrow>
             (case find (\<lambda>r. py_int16 (r_id r) = Inr cid) rs of
                None \<Rightarrow> None
              | Some r \<Rightarrow> (case schema_of cid r of Inl e \<Rightarrow> None | Inr entry \<Rightarrow> Some entry)))"
      using e(2) by (rule Cons.IH)
    moreover have "map_of (stbl @ [(canid, entry)]) cid =
        (case map_of stbl cid of Some e \<Rightarrow> Some e
         | None \<Rightarrow> if cid = canid then Some entry else None)"
      by (simp add: map_add_def split: option.splits)
    ultimately show ?thesis
      using c e(1) None by (auto split: option.splits)
  qed
qed

text \<open>
  Claim C10. In the table \<open>load_stbl\<close> returns no identifier has two entries, and the
  entry of an identifier is the one built from the first record of the list whose \<open>id\<close>
  parses to it. A record whose identifier is in the table already changes nothing:
  loading the list with that record at its end gives the same table, whatever the
  record's values are. Of two records with the same identifier only the first one's
  entry is in the table.
\<close>

theorem C10_first_record_wins:
  "(load_stbl rs = Inr tbl \<longrightarrow>
      distinct (map fst tbl) \<and>
      map_of tbl cid =
        (case find (\<lambda>r. py_int16 (r_id r) = Inr cid) rs of
           None \<Rightarrow> None
         | Some r \<Rightarrow> (case schema_of cid r of Inl e \<Rightarrow> None | Inr entry \<Rightarrow> Some entry))) \<and>
   (load_stbl rs = Inr tbl \<and> py_int16 (r_id r) = Inr cid \<and> map_of tbl cid \<noteq> None \<longrightarrow>
      load_stbl (rs @ [r]) = Inr tbl) \<and>
   (py_int16 (r_id r1) = Inr cid \<and> py_int16 (r_id r2) = Inr cid \<and>
    schema_of cid r1 = Inr entry \<longrightarrow>
      load_stbl [r1, r2] = Inr [(cid, entry)])"
proof (intro conjI impI)
  assume "load_stbl rs = Inr tbl"
  then show "distinct (map fst tbl)"
    unfolding load_stbl_def by (rule load_records_distinct) simp
next
  assume "load_stbl rs = Inr tbl"
  then show "map_of tbl cid =
        (case find (\<lambda>r. py_int16 (r_id r) = Inr cid) rs of
           None \<Rightarrow> None
         | Some r \<Rightarrow> (case schema_of cid r of Inl e \<Rightarrow> None | Inr entry \<Rightarrow> Some entry))"
    unfolding load_stbl_def using load_records_lookup [of rs "[]" tbl cid] by simp
next
  assume "load_stbl rs = Inr tbl \<and> py_int16 (r_id r) = Inr cid \<and> map_of tbl cid \<noteq> None"
  then show "load_stbl (rs @ [r]) = Inr tbl"
    by (auto simp: load_stbl_def load_records_append)
next
  assume "py_int16 (r_id r1) = Inr cid \<and> py_int16 (r_id r2) = Inr cid \<and>
    schema_of cid r1 = Inr entry"
  then show "load_stbl [r1, r2] = Inr [(cid, entry)]"
    by (simp add: load_stbl_def)
qed

text \<open>
  The theorem applied to two records with the identifiers \<open>1A\<close> and \<open>1a\<close>, both \<open>26\<close>.
\<close>

theorem C10_first_record_wins_witness:
  "load_stbl
     [\<lparr>r_id = ''1A'', r_name = ''first'', r_values = [raw_field ''a'' 0 8]\<rparr>,
      \<lparr>r_id = ''1a'', r_name = ''second'', r_values = [raw_field ''b'' 0 16]\<rparr>] =
   Inr [(26, Simple 26 ''first'' [raw_field ''a'' 0 8])] \<and>
   load_stbl
     ([\<lparr>r_id = ''1A'', r_name = ''first'', r_values = [raw_field ''a'' 0 8]\<rparr>] @
      [\<lparr>r_id = ''1a'', r_name = ''second'', r_values = [raw_field ''b'' 0 16]\<rparr>]) =
   load_stbl [\<lparr>r_id = ''1A'', r_name = ''first'', r_values = [raw_field ''a'' 0 8]\<rparr>] \<and>
   map_of [(26, Simple 26 ''first'' [raw_field ''a'' 0 8])] 26 =
     Some (Simple 26 ''first'' [raw_field ''a'' 0 8])"
proof -
  define r1 where "r1 = \<lparr>r_id = ''1A'', r_name = ''first'', r_values = [raw_field ''a'' 0 8]\<rparr>"
  define r2 where "r2 = \<lparr>r_id = ''1a'', r_name = ''second'', r_values = [raw_field ''b'' 0 16]\<rparr>"
  define entry where "entry = Simple 26 ''first'' [raw_field ''a'' 0 8]"
  have ids: "py_int16 (r_id r1) = Inr 26" "py_int16 (r_id r2) = Inr 26"
    by (simp_all add: r1_def r2_def py_int16_eval)
  have sch: "schema_of 26 r1 = Inr entry"
    by (simp add: schema_of_def r1_def raw_field_def entry_def)
  have one: "load_stbl [r1] = Inr [(26, entry)]"
    by (simp add: load_stbl_def ids sch)
  note inst = C10_first_record_wins [of "[r1]" "[(26, entry)]" 26 r2 r1 r2 entry]
  have "load_stbl [r1, r2] = Inr [(26, entry)]"
    using inst ids sch by blast
  moreover have "load_stbl ([r1] @ [r2]) = Inr [(26, entry)]"
    using inst one ids(2) by simp
  moreover have "map_of [(26, entry)] 26 = Some entry"
    using inst one ids(1) sch by simp
  ultimately show ?thesis
    using one unfolding r1_def r2_def entry_def by simp
qed

end
